theory Spec2Isabelle
  imports Complex_Main "HOL-Library.Log_Nat"
begin

section \<open>Data model\<close>

text \<open>
  The functions of \<^verbatim>\<open>example.py\<close> take Python numbers: ints, which are unbounded
  and exact, and floats, which are IEEE 754 binary64 values and round.

  \<^item> \<open>find_max\<close> and \<open>factorial\<close> compare numbers, and \<open>factorial\<close> multiplies and
    decrements them. Comparisons are exact on ints and floats alike and int
    arithmetic is exact, so there a number is the real it denotes
    (\<^typ>\<open>real\<close>, a Python int \<open>k\<close> being \<open>of_int k\<close>).
  \<^item> \<open>add\<close>, \<open>divide\<close> and the methods of \<open>Calculator\<close> return the result of one
    arithmetic operation, which rounds on floats and converts ints to floats. There
    ints and floats are told apart (\<open>pynum\<close>) and every float operation is rounded to
    binary64.

  The interpreter's recursion limit is outside the model. The exceptions are values:
  a function that can raise returns \<open>error + 'a\<close>, with \<open>Inl\<close> for the raise.
  \<^verbatim>\<open>ValueError\<close> carries its message; \<^verbatim>\<open>OverflowError\<close> and
  \<^verbatim>\<open>ZeroDivisionError\<close> come from the arithmetic of the language.
\<close>

type_synonym number = real

datatype error = ValueError string | OverflowError | ZeroDivisionError

subsection \<open>Binary64 floats\<close>

text \<open>
  A float is finite, an infinity or NaN. A finite float is given by the real it
  denotes; \<open>-0.0\<close> and \<open>0.0\<close> are one value (they compare equal, and nothing here
  divides by them). The finite floats are the numbers \<open>m * 2 ^ e\<close> with
  \<open>\<bar>m\<bar> < 2 ^ 53\<close> and \<open>-1074 \<le> e \<le> 971\<close>: they are multiples of \<open>2 ^ -1074\<close>
  (\<open>ulp_exp\<close>) and smaller than \<open>2 ^ 1024\<close> (\<open>max_exp\<close>).
\<close>

datatype double = Finite real | PosInf | NegInf | NaN

definition max_exp :: nat where
  "max_exp = 1024"

definition ulp_exp :: nat where
  "ulp_exp = 1074"

text \<open>Rounding a real to the nearest integer, a tie going to the even one.\<close>

definition round_half_even :: "real \<Rightarrow> int" where
  "round_half_even t =
     (let f = \<lfloor>t\<rfloor> in
      if t - of_int f < 1 / 2 then f
      else if t - of_int f > 1 / 2 then f + 1
      else if even f then f else f + 1)"

text \<open>
  Rounding a real to binary64, to nearest and ties to even, as every float operation
  and every conversion of an int does. With \<open>s = \<bar>x\<bar> * 2 ^ 1074\<close>, the spacing of the
  floats around \<open>s\<close> is \<open>2 ^ k\<close>, where \<open>k\<close> is the number of bits of \<open>\<lfloor>s\<rfloor>\<close> beyond 53
  (\<open>k = 0\<close> for the subnormal numbers); a result of \<open>2 ^ 1024\<close> or more is an infinity.
\<close>

definition round_double :: "real \<Rightarrow> double" where
  "round_double x =
     (let s = \<bar>x\<bar> * 2 ^ ulp_exp;
          k = nat (bitlen \<lfloor>s\<rfloor> - 53);
          m = round_half_even (s / 2 ^ k) * 2 ^ k
      in if 2 ^ (max_exp + ulp_exp) \<le> m then (if 0 < x then PosInf else NegInf)
         else Finite (sgn x * of_int m / 2 ^ ulp_exp))"

text \<open>The IEEE operations on floats. Python raises on a float division by zero.\<close>

fun double_neg :: "double \<Rightarrow> double" where
  "double_neg (Finite x) = Finite (- x)"
| "double_neg PosInf = NegInf"
| "double_neg NegInf = PosInf"
| "double_neg NaN = NaN"

fun double_add :: "double \<Rightarrow> double \<Rightarrow> double" where
  "double_add (Finite x) (Finite y) = round_double (x + y)"
| "double_add NaN y = NaN"
| "double_add x NaN = NaN"
| "double_add PosInf NegInf = NaN"
| "double_add NegInf PosInf = NaN"
| "double_add PosInf y = PosInf"
| "double_add NegInf y = NegInf"
| "double_add x PosInf = PosInf"
| "double_add x NegInf = NegInf"

definition double_sub :: "double \<Rightarrow> double \<Rightarrow> double" where
  "double_sub x y = double_add x (double_neg y)"

fun double_mul :: "double \<Rightarrow> double \<Rightarrow> double" where
  "double_mul (Finite x) (Finite y) = round_double (x * y)"
| "double_mul NaN y = NaN"
| "double_mul x NaN = NaN"
| "double_mul (Finite x) PosInf = (if x = 0 then NaN else if 0 < x then PosInf else NegInf)"
| "double_mul (Finite x) NegInf = (if x = 0 then NaN else if 0 < x then NegInf else PosInf)"
| "double_mul PosInf (Finite y) = (if y = 0 then NaN else if 0 < y then PosInf else NegInf)"
| "double_mul NegInf (Finite y) = (if y = 0 then NaN else if 0 < y then NegInf else PosInf)"
| "double_mul PosInf PosInf = PosInf"
| "double_mul PosInf NegInf = NegInf"
| "double_mul NegInf PosInf = NegInf"
| "double_mul NegInf NegInf = PosInf"

fun double_div :: "double \<Rightarrow> double \<Rightarrow> error + double" where
  "double_div x (Finite y) =
     (if y = 0 then Inl ZeroDivisionError
      else case x of
             Finite a \<Rightarrow> Inr (round_double (a / y))
           | PosInf \<Rightarrow> Inr (if 0 < y then PosInf else NegInf)
           | NegInf \<Rightarrow> Inr (if 0 < y then NegInf else PosInf)
           | NaN \<Rightarrow> Inr NaN)"
| "double_div NaN y = Inr NaN"
| "double_div x NaN = Inr NaN"
| "double_div (Finite a) y = Inr (Finite 0)"
| "double_div x y = Inr NaN"

subsection \<open>Python numbers and their arithmetic\<close>

datatype pynum = PyInt int | PyFloat double

text \<open>
  The conversion of an operand to a float in mixed arithmetic: an int is rounded, and
  one too large for a float raises \<^verbatim>\<open>OverflowError\<close>.
\<close>

fun as_double :: "pynum \<Rightarrow> error + double" where
  "as_double (PyInt i) =
     (case round_double (of_int i) of
        Finite r \<Rightarrow> Inr (Finite r)
      | _ \<Rightarrow> Inl OverflowError)"
| "as_double (PyFloat d) = Inr d"

text \<open>
  \<^verbatim>\<open>a + b\<close>, \<^verbatim>\<open>a - b\<close> and \<^verbatim>\<open>a * b\<close>: exact on two ints; otherwise both operands
  are converted and the float operation is applied.
\<close>

fun py_add :: "pynum \<Rightarrow> pynum \<Rightarrow> error + pynum" where
  "py_add (PyInt i) (PyInt j) = Inr (PyInt (i + j))"
| "py_add a b =
     (case as_double a of
        Inl e \<Rightarrow> Inl e
      | Inr x \<Rightarrow> (case as_double b of
                   Inl e \<Rightarrow> Inl e
                 | Inr y \<Rightarrow> Inr (PyFloat (double_add x y))))"

fun py_sub :: "pynum \<Rightarrow> pynum \<Rightarrow> error + pynum" where
  "py_sub (PyInt i) (PyInt j) = Inr (PyInt (i - j))"
| "py_sub a b =
     (case as_double a of
        Inl e \<Rightarrow> Inl e
      | Inr x \<Rightarrow> (case as_double b of
                   Inl e \<Rightarrow> Inl e
                 | Inr y \<Rightarrow> Inr (PyFloat (double_sub x y))))"

fun py_mul :: "pynum \<Rightarrow> pynum \<Rightarrow> error + pynum" where
  "py_mul (PyInt i) (PyInt j) = Inr (PyInt (i * j))"
| "py_mul a b =
     (case as_double a of
        Inl e \<Rightarrow> Inl e
      | Inr x \<Rightarrow> (case as_double b of
                   Inl e \<Rightarrow> Inl e
                 | Inr y \<Rightarrow> Inr (PyFloat (double_mul x y))))"

text \<open>
  \<^verbatim>\<open>a / b\<close>, true division. On two ints the exact quotient is rounded once, and a
  quotient beyond the floats raises \<^verbatim>\<open>OverflowError\<close>; otherwise both operands are
  converted and divided as floats, where an overflow gives an infinity.
\<close>

fun py_truediv :: "pynum \<Rightarrow> pynum \<Rightarrow> error + pynum" where
  "py_truediv (PyInt i) (PyInt j) =
     (if j = 0 then Inl ZeroDivisionError
      else case round_double (of_int i / of_int j) of
             Finite q \<Rightarrow> Inr (PyFloat (Finite q))
           | _ \<Rightarrow> Inl OverflowError)"
| "py_truediv a b =
     (case as_double a of
        Inl e \<Rightarrow> Inl e
      | Inr x \<Rightarrow> (case as_double b of
                   Inl e \<Rightarrow> Inl e
                 | Inr y \<Rightarrow> (case double_div x y of
                              Inl e \<Rightarrow> Inl e
                            | Inr d \<Rightarrow> Inr (PyFloat d))))"

text \<open>\<^verbatim>\<open>b == 0\<close>: an int or a float is compared with the int \<open>0\<close> exactly.\<close>

fun eq_zero :: "pynum \<Rightarrow> bool" where
  "eq_zero (PyInt i) = (i = 0)"
| "eq_zero (PyFloat (Finite y)) = (y = 0)"
| "eq_zero (PyFloat d) = False"

text \<open>
  The numbers that enter float arithmetic with their exact value: a finite float, and
  an int of magnitude below \<open>2 ^ 53\<close>, which converts to a float without rounding.
\<close>

fun has_value :: "pynum \<Rightarrow> real \<Rightarrow> bool" where
  "has_value (PyInt i) x = (\<bar>i\<bar> < 2 ^ 53 \<and> x = of_int i)"
| "has_value (PyFloat (Finite r)) x = (x = r)"
| "has_value (PyFloat d) x = False"

section \<open>Arithmetic and validation functions\<close>

text \<open>\<^verbatim>\<open>def add(a, b): return a + b\<close>\<close>

definition add :: "pynum \<Rightarrow> pynum \<Rightarrow> error + pynum" where
  "add a b = py_add a b"

text \<open>
  \<^verbatim>\<open>def divide(a, b):
    if b == 0: raise ValueError("Cannot divide by zero")
    return a / b\<close>
\<close>

definition divide :: "pynum \<Rightarrow> pynum \<Rightarrow> error + pynum" where
  "divide a b =
     (if eq_zero b then Inl (ValueError ''Cannot divide by zero'')
      else py_truediv a b)"

text \<open>
  The builtin \<^verbatim>\<open>max\<close> on a non-empty sequence: it starts from the first element and
  replaces the running maximum by each later element that is strictly greater.
\<close>

fun max_from :: "number \<Rightarrow> number list \<Rightarrow> number" where
  "max_from m [] = m"
| "max_from m (x # xs) = max_from (if x > m then x else m) xs"

text \<open>
  \<^verbatim>\<open>def find_max(numbers):
    if not numbers: raise ValueError("List cannot be empty")
    return max(numbers)\<close>
\<close>

fun find_max :: "number list \<Rightarrow> error + number" where
  "find_max [] = Inl (ValueError ''List cannot be empty'')"
| "find_max (x # xs) = Inr (max_from x xs)"

text \<open>
  \<^verbatim>\<open>str.split(sep)\<close> with an explicit one-character separator: the pieces between the
  occurrences of the separator, empty pieces included; the empty string gives one
  empty piece.
\<close>

fun split :: "char \<Rightarrow> string \<Rightarrow> string list" where
  "split sep [] = [[]]"
| "split sep (c # cs) =
     (if c = sep then [] # split sep cs
      else (c # hd (split sep cs)) # tl (split sep cs))"

text \<open>
  \<^verbatim>\<open>def is_valid_email(email):
    if not email or '@' not in email or '.' not in email: return False
    parts = email.split('@')
    if len(parts) != 2: return False
    return '.' in parts[1]\<close>
\<close>

definition is_valid_email :: "string \<Rightarrow> bool" where
  "is_valid_email email =
     (if email = [] \<or> CHR ''@'' \<notin> set email \<or> CHR ''.'' \<notin> set email then False
      else let parts = split CHR ''@'' email in
        if length parts \<noteq> 2 then False
        else CHR ''.'' \<in> set (parts ! 1))"

text \<open>
  \<^verbatim>\<open>def factorial(n):
    if n < 0: raise ValueError("Factorial not defined for negative numbers")
    if n == 0 or n == 1: return 1
    return n * factorial(n - 1)\<close>

  An exception raised by the recursive call propagates through the multiplication.
  The recursion ends on every number: the ceiling of the argument decreases.
\<close>

function factorial :: "number \<Rightarrow> error + number" where
  "factorial n =
     (if n < 0 then Inl (ValueError ''Factorial not defined for negative numbers'')
      else if n = 0 \<or> n = 1 then Inr 1
      else (case factorial (n - 1) of
              Inl e \<Rightarrow> Inl e
            | Inr r \<Rightarrow> Inr (n * r)))"
  by pat_completeness auto
termination
proof (relation "measure (\<lambda>n. nat \<lceil>n\<rceil>)")
  show "wf (measure (\<lambda>n::real. nat \<lceil>n\<rceil>))"
    by simp
next
  fix n :: real
  assume "\<not> n < 0" and "\<not> (n = 0 \<or> n = 1)"
  then have "0 < n" by simp
  then have "0 < \<lceil>n\<rceil>" by simp
  moreover have "\<lceil>n - 1\<rceil> = \<lceil>n\<rceil> - 1" by simp
  ultimately show "(n - 1, n) \<in> measure (\<lambda>n. nat \<lceil>n\<rceil>)"
    by simp
qed

declare factorial.simps [simp del]

section \<open>Calculator\<close>

text \<open>
  \<^verbatim>\<open>class Calculator\<close> has the single field \<^verbatim>\<open>result\<close>. Each method mutates the
  instance and returns a value: it is modelled as a function from the instance to the
  returned value and the updated instance. When \<^verbatim>\<open>+=\<close> or \<^verbatim>\<open>-=\<close> raises, nothing
  is assigned and the exception leaves the method.

  \<^verbatim>\<open>def __init__(self): self.result = 0\<close>

  \<^verbatim>\<open>def add(self, value): self.result += value; return self.result\<close>

  \<^verbatim>\<open>def subtract(self, value): self.result -= value; return self.result\<close>

  \<^verbatim>\<open>def reset(self): self.result = 0; return self.result\<close>
\<close>

record Calculator =
  result :: pynum

definition Calculator_init :: Calculator where
  "Calculator_init = \<lparr>result = PyInt 0\<rparr>"

definition Calculator_add :: "pynum \<Rightarrow> Calculator \<Rightarrow> error + pynum \<times> Calculator" where
  "Calculator_add v self =
     (case py_add (result self) v of
        Inl e \<Rightarrow> Inl e
      | Inr r \<Rightarrow> (let self' = self\<lparr>result := r\<rparr> in Inr (result self', self')))"

definition Calculator_subtract :: "pynum \<Rightarrow> Calculator \<Rightarrow> error + pynum \<times> Calculator" where
  "Calculator_subtract v self =
     (case py_sub (result self) v of
        Inl e \<Rightarrow> Inl e
      | Inr r \<Rightarrow> (let self' = self\<lparr>result := r\<rparr> in Inr (result self', self')))"

definition Calculator_reset :: "Calculator \<Rightarrow> pynum \<times> Calculator" where
  "Calculator_reset self =
     (let self' = self\<lparr>result := PyInt 0\<rparr> in (result self', self'))"

text \<open>
  A finite sequence of method calls on one instance, and the run of such a sequence:
  the values returned, in order, and the final instance. The run ends at the first
  call that raises.
\<close>

datatype 'v call = Add 'v | Subtract 'v | Reset

fun perform :: "pynum call \<Rightarrow> Calculator \<Rightarrow> error + pynum \<times> Calculator" where
  "perform (Add v) self = Calculator_add v self"
| "perform (Subtract v) self = Calculator_subtract v self"
| "perform Reset self = Inr (Calculator_reset self)"

fun run :: "pynum call list \<Rightarrow> Calculator \<Rightarrow> error + pynum list \<times> Calculator" where
  "run [] self = Inr ([], self)"
| "run (c # cs) self =
     (case perform c self of
        Inl e \<Rightarrow> Inl e
      | Inr (r, self') \<Rightarrow>
          (case run cs self' of
             Inl e \<Rightarrow> Inl e
           | Inr (rs, self'') \<Rightarrow> Inr (r # rs, self'')))"

text \<open>
  The specification's reading of the accumulator, over exact numbers: the calls made
  since the most recent reset (all of them when there was none), and the sum of the
  values added minus the sum of the values subtracted among them.
\<close>

definition since_reset :: "'v call list \<Rightarrow> 'v call list" where
  "since_reset cs = rev (takeWhile (\<lambda>c. c \<noteq> Reset) (rev cs))"

definition added :: "'v call list \<Rightarrow> 'v list" where
  "added cs = concat (map (\<lambda>c. case c of Add v \<Rightarrow> [v] | _ \<Rightarrow> []) cs)"

definition subtracted :: "'v call list \<Rightarrow> 'v list" where
  "subtracted cs = concat (map (\<lambda>c. case c of Subtract v \<Rightarrow> [v] | _ \<Rightarrow> []) cs)"

definition net :: "'v::ab_group_add call list \<Rightarrow> 'v" where
  "net cs = sum_list (added (since_reset cs)) - sum_list (subtracted (since_reset cs))"

text \<open>
  The exact accumulator: the effect of one call on an exact total, and the totals
  after each call of a sequence.
\<close>

fun exact_step :: "'v::ab_group_add call \<Rightarrow> 'v \<Rightarrow> 'v" where
  "exact_step (Add v) r = r + v"
| "exact_step (Subtract v) r = r - v"
| "exact_step Reset r = 0"

fun exact_totals :: "'v::ab_group_add call list \<Rightarrow> 'v \<Rightarrow> 'v list" where
  "exact_totals [] r = []"
| "exact_totals (c # cs) r = exact_step c r # exact_totals cs (exact_step c r)"

section \<open>Auxiliary facts\<close>

subsection \<open>The recursion of \<open>factorial\<close>\<close>

lemma factorial_below_zero:
  "n < 0 \<Longrightarrow> factorial n = Inl (ValueError ''Factorial not defined for negative numbers'')"
  by (simp add: factorial.simps)

lemma factorial_of_nat: "factorial (real m) = Inr (fact m)"
proof (induction m)
  case 0
  show ?case by (simp add: factorial.simps)
next
  case (Suc m)
  show ?case
  proof (cases "m = 0")
    case True
    then show ?thesis by (simp add: factorial.simps)
  next
    case False
    have "factorial (real (Suc m)) =
        (case factorial (real (Suc m) - 1) of
           Inl e \<Rightarrow> Inl e
         | Inr r \<Rightarrow> Inr (real (Suc m) * r))"
      using False by (subst factorial.simps) simp
    also have "real (Suc m) - 1 = real m" by simp
    finally show ?thesis using Suc.IH by simp
  qed
qed

lemma prod_upto_fact: "(\<Prod>i = 1..m. real i) = fact m"
  by (simp add: fact_prod)

lemma factorial_off_integers:
  "n \<notin> \<int> \<Longrightarrow> factorial n = Inl (ValueError ''Factorial not defined for negative numbers'')"
proof (induction n rule: factorial.induct)
  case (1 n)
  show ?case
  proof (cases "n < 0")
    case True
    then show ?thesis by (rule factorial_below_zero)
  next
    case False
    have ne: "\<not> (n = 0 \<or> n = 1)" using "1.prems" by auto
    have "n - 1 \<notin> \<int>" using "1.prems" by (metis Ints_1 Ints_add diff_add_cancel)
    then have "factorial (n - 1) = Inl (ValueError ''Factorial not defined for negative numbers'')"
      using "1.IH" False ne by blast
    then show ?thesis using False ne by (subst factorial.simps) simp
  qed
qed

lemma factorial_only_message:
  "factorial n = Inl e \<Longrightarrow> e = ValueError ''Factorial not defined for negative numbers''"
proof (induction n arbitrary: e rule: factorial.induct)
  case (1 n)
  show ?case
  proof (cases "n < 0")
    case True
    then show ?thesis using "1.prems" by (simp add: factorial_below_zero)
  next
    case False
    show ?thesis
    proof (cases "n = 0 \<or> n = 1")
      case True
      then show ?thesis using "1.prems" False by (subst (asm) factorial.simps) auto
    next
      case ne: False
      have "factorial (n - 1) = Inl e"
        using "1.prems" False ne by (subst (asm) factorial.simps) (auto split: sum.splits)
      then show ?thesis using "1.IH" False ne by blast
    qed
  qed
qed

text \<open>
  The arguments of the successive calls on a positive non-integer \<open>n\<close> are
  \<open>n, n - 1, \<dots>\<close>: after \<open>k\<close> steps the argument is negative, and none before
  it is negative or a base case.
\<close>

lemma non_integer_descent:
  assumes "n \<notin> \<int>" and "0 < n"
  shows "\<exists>k. n - real k < 0 \<and> (\<forall>j<k. 0 < n - real j \<and> n - real j \<noteq> 1)"
proof (intro exI conjI allI impI)
  let ?k = "nat \<lceil>n\<rceil>"
  have pos: "0 < \<lceil>n\<rceil>" using assms(2) by simp
  then have k: "real ?k = of_int \<lceil>n\<rceil>" by simp
  have "n \<noteq> of_int \<lceil>n\<rceil>" using assms(1) by (metis Ints_of_int)
  moreover have "n \<le> of_int \<lceil>n\<rceil>" by (rule le_of_int_ceiling)
  ultimately have "n < of_int \<lceil>n\<rceil>" by linarith
  then show "n - real ?k < 0" using k by simp
  fix j assume "j < ?k"
  then have "int j \<le> \<lceil>n\<rceil> - 1" using pos by simp
  then have "real j \<le> of_int (\<lceil>n\<rceil> - 1)" by (metis of_int_le_iff of_int_of_nat_eq)
  also have "\<dots> < n" using ceiling_correct [of n] by simp
  finally show "0 < n - real j" by simp
  show "n - real j \<noteq> 1"
  proof
    assume "n - real j = 1"
    then have "n = of_int (1 + int j)" by simp
    then show False using assms(1) by (metis Ints_of_int)
  qed
qed

subsection \<open>The running maximum\<close>

lemma max_from_mem: "max_from m xs \<in> set (m # xs)"
  by (induction xs arbitrary: m) auto

lemma max_from_ge_start: "m \<le> max_from m xs"
proof (induction xs arbitrary: m)
  case Nil
  show ?case by simp
next
  case (Cons x xs)
  have "m \<le> (if x > m then x else m)" by simp
  also have "\<dots> \<le> max_from (if x > m then x else m) xs" by (rule Cons.IH)
  finally show ?case by simp
qed

lemma max_from_upper: "y \<in> set (m # xs) \<Longrightarrow> y \<le> max_from m xs"
proof (induction xs arbitrary: m)
  case Nil
  then show ?case by simp
next
  case (Cons x xs)
  let ?m' = "if x > m then x else m"
  have "y \<le> ?m' \<or> y \<in> set xs" using Cons.prems by auto
  then show ?case
  proof
    assume "y \<le> ?m'"
    also have "?m' \<le> max_from ?m' xs" by (rule max_from_ge_start)
    finally show ?thesis by simp
  next
    assume "y \<in> set xs"
    then have "y \<in> set (?m' # xs)" by simp
    then have "y \<le> max_from ?m' xs" by (rule Cons.IH)
    then show ?thesis by simp
  qed
qed

subsection \<open>Splitting at a separator\<close>

lemma split_not_Nil: "split sep s \<noteq> []"
  by (induction s) auto

lemma length_split: "length (split sep s) = Suc (count_list s sep)"
proof (induction s)
  case Nil
  show ?case by simp
next
  case (Cons c cs)
  have "length (tl (split sep cs)) = count_list cs sep"
    using Cons.IH by simp
  then show ?case using Cons.IH by simp
qed

lemma split_no_sep: "sep \<notin> set s \<Longrightarrow> split sep s = [s]"
  by (induction s) auto

lemma split_first_sep: "sep \<notin> set l \<Longrightarrow> split sep (l @ sep # d) = l # split sep d"
  by (induction l) auto

lemma count_list_0: "count_list s x = 0 \<longleftrightarrow> x \<notin> set s"
  by (induction s) auto

text \<open>
  What the rule of \<open>is_valid_email\<close> accepts, without reference to \<open>split\<close>: the strings
  with exactly one \<open>@\<close> and a dot somewhere after it.
\<close>

lemma is_valid_email_shape:
  "is_valid_email email \<longleftrightarrow>
     (\<exists>l d. email = l @ CHR ''@'' # d \<and> CHR ''@'' \<notin> set l \<and> CHR ''@'' \<notin> set d
        \<and> CHR ''.'' \<in> set d)"
proof
  assume v: "is_valid_email email"
  then have at: "CHR ''@'' \<in> set email"
    and len: "length (split CHR ''@'' email) = 2"
    and dot: "CHR ''.'' \<in> set (split CHR ''@'' email ! 1)"
    by (auto simp: is_valid_email_def Let_def split: if_splits)
  from at obtain l d where e: "email = l @ CHR ''@'' # d" and l: "CHR ''@'' \<notin> set l"
    by (auto dest: split_list_first)
  have s: "split CHR ''@'' email = l # split CHR ''@'' d"
    using e l by (simp add: split_first_sep)
  with len have "length (split CHR ''@'' d) = 1" by simp
  then have d: "CHR ''@'' \<notin> set d"
    by (simp add: length_split count_list_0)
  then have "split CHR ''@'' email ! 1 = d"
    using s by (simp add: split_no_sep)
  with dot e l d show "\<exists>l d. email = l @ CHR ''@'' # d \<and> CHR ''@'' \<notin> set l
      \<and> CHR ''@'' \<notin> set d \<and> CHR ''.'' \<in> set d"
    by auto
next
  assume "\<exists>l d. email = l @ CHR ''@'' # d \<and> CHR ''@'' \<notin> set l \<and> CHR ''@'' \<notin> set d
      \<and> CHR ''.'' \<in> set d"
  then obtain l d where e: "email = l @ CHR ''@'' # d" and l: "CHR ''@'' \<notin> set l"
    and d: "CHR ''@'' \<notin> set d" and dot: "CHR ''.'' \<in> set d"
    by blast
  have "split CHR ''@'' email = [l, d]"
    using e l d by (simp add: split_first_sep split_no_sep)
  then show "is_valid_email email"
    using e dot by (simp add: is_valid_email_def)
qed

subsection \<open>Rounding to binary64\<close>

lemma round_half_even_of_int: "round_half_even (of_int n) = n"
  by (simp add: round_half_even_def)

lemma round_half_even_cases:
  "round_half_even t = \<lfloor>t\<rfloor> \<and> t - of_int \<lfloor>t\<rfloor> \<le> 1 / 2
   \<or> round_half_even t = \<lfloor>t\<rfloor> + 1 \<and> 1 / 2 \<le> t - of_int \<lfloor>t\<rfloor>"
  unfolding round_half_even_def Let_def by simp

lemma round_half_even_near: "\<bar>of_int (round_half_even t) - t\<bar> \<le> 1 / 2"
proof -
  have "of_int \<lfloor>t\<rfloor> \<le> t" and "t < of_int \<lfloor>t\<rfloor> + 1" by linarith+
  then show ?thesis using round_half_even_cases [of t] by auto
qed

lemma round_half_even_le: "t \<le> of_int n \<Longrightarrow> round_half_even t \<le> n"
proof -
  assume le: "t \<le> of_int n"
  show ?thesis
  proof (cases "t = of_int n")
    case True
    then show ?thesis by (simp add: round_half_even_of_int)
  next
    case False
    then have "t < of_int n" using le by simp
    then have "\<lfloor>t\<rfloor> < n" by (simp add: floor_less_iff)
    then show ?thesis using round_half_even_cases [of t] by auto
  qed
qed

lemma round_half_even_ge: "of_int n \<le> t \<Longrightarrow> n \<le> round_half_even t"
proof -
  assume "of_int n \<le> t"
  then have "n \<le> \<lfloor>t\<rfloor>" by (simp add: le_floor_iff)
  then show ?thesis using round_half_even_cases [of t] by auto
qed

lemma shift_of_binade:
  assumes "2 ^ (52 + j) \<le> s" and "s < 2 ^ (53 + j)"
  shows "nat (bitlen \<lfloor>s\<rfloor> - 53) = j"
proof -
  have lo: "(2::int) ^ (52 + j) \<le> \<lfloor>s\<rfloor>"
    using assms(1) by (simp add: le_floor_iff)
  have hi: "\<lfloor>s\<rfloor> < (2::int) ^ (53 + j)"
    using assms(2) by (simp add: floor_less_iff)
  have n: "nat (53 + int j) = 53 + j" by simp
  have "bitlen \<lfloor>s\<rfloor> \<le> int (53 + j)"
    using hi by (simp add: bitlen_le_iff_power n)
  moreover have "int (53 + j) \<le> bitlen \<lfloor>s\<rfloor>"
  proof -
    have "nat (int (53 + j)) - 1 = 52 + j" by simp
    then show ?thesis using lo by (simp only: bitlen_ge_iff_power) simp
  qed
  ultimately show ?thesis by simp
qed

lemma shift_of_small:
  assumes "s < 2 ^ 53"
  shows "nat (bitlen \<lfloor>s\<rfloor> - 53) = 0"
proof -
  have "\<lfloor>s\<rfloor> < (2::int) ^ 53"
    using assms by (simp add: floor_less_iff)
  then have "bitlen \<lfloor>s\<rfloor> \<le> 53"
    by (simp add: bitlen_le_iff_power)
  then show ?thesis by simp
qed

lemma round_double_binade:
  assumes "2 ^ (52 + j) \<le> \<bar>x\<bar> * 2 ^ ulp_exp" and "\<bar>x\<bar> * 2 ^ ulp_exp < 2 ^ (53 + j)"
  shows "round_double x =
     (if 2 ^ (max_exp + ulp_exp) \<le> round_half_even (\<bar>x\<bar> * 2 ^ ulp_exp / 2 ^ j) * 2 ^ j
      then (if 0 < x then PosInf else NegInf)
      else Finite (sgn x * of_int (round_half_even (\<bar>x\<bar> * 2 ^ ulp_exp / 2 ^ j) * 2 ^ j)
                     / 2 ^ ulp_exp))"
  unfolding round_double_def Let_def shift_of_binade [OF assms] ..

lemma round_double_coarse:
  assumes "2 ^ (52 + i) \<le> \<bar>x\<bar>" and "\<bar>x\<bar> < 2 ^ (53 + i)"
  shows "round_double x =
     (if 2 ^ max_exp \<le> round_half_even (\<bar>x\<bar> / 2 ^ i) * 2 ^ i
      then (if 0 < x then PosInf else NegInf)
      else Finite (sgn x * of_int (round_half_even (\<bar>x\<bar> / 2 ^ i) * 2 ^ i)))"
proof -
  let ?S = "(2::real) ^ ulp_exp"
  let ?r = "round_half_even (\<bar>x\<bar> / 2 ^ i)"
  have lo: "2 ^ (52 + (i + ulp_exp)) \<le> \<bar>x\<bar> * ?S"
    using assms(1) by (simp add: power_add)
  have hi: "\<bar>x\<bar> * ?S < 2 ^ (53 + (i + ulp_exp))"
    using assms(2) by (simp add: power_add)
  have t: "\<bar>x\<bar> * ?S / 2 ^ (i + ulp_exp) = \<bar>x\<bar> / 2 ^ i"
    by (simp add: power_add)
  have c: "(2 ^ (max_exp + ulp_exp) \<le> ?r * 2 ^ (i + ulp_exp)) \<longleftrightarrow> (2 ^ max_exp \<le> ?r * 2 ^ i)"
    by (simp add: power_add)
  have v: "sgn x * of_int (?r * 2 ^ (i + ulp_exp)) / ?S = sgn x * of_int (?r * 2 ^ i)"
    by (simp add: power_add)
  show ?thesis
    unfolding round_double_binade [OF lo hi] t c v ..
qed

lemma round_double_fine:
  assumes "i \<le> ulp_exp" and "2 ^ 52 \<le> \<bar>x\<bar> * 2 ^ i" and "\<bar>x\<bar> * 2 ^ i < 2 ^ 53"
  shows "round_double x = Finite (sgn x * of_int (round_half_even (\<bar>x\<bar> * 2 ^ i)) / 2 ^ i)"
proof -
  let ?S = "(2::real) ^ ulp_exp"
  let ?r = "round_half_even (\<bar>x\<bar> * 2 ^ i)"
  define j where "j = ulp_exp - i"
  then have u: "ulp_exp = i + j" using assms(1) by simp
  have lo: "2 ^ (52 + j) \<le> \<bar>x\<bar> * ?S"
    using assms(2) mult_right_mono [of "2 ^ 52" "\<bar>x\<bar> * 2 ^ i" "2 ^ j"]
    by (simp add: u power_add mult.assoc)
  have hi: "\<bar>x\<bar> * ?S < 2 ^ (53 + j)"
    using assms(3) mult_strict_right_mono [of "\<bar>x\<bar> * 2 ^ i" "2 ^ 53" "2 ^ j"]
    by (simp add: u power_add mult.assoc)
  have t: "\<bar>x\<bar> * ?S / 2 ^ j = \<bar>x\<bar> * 2 ^ i"
    by (simp add: u power_add)
  have "?r \<le> 2 ^ 53"
    using assms(3) round_half_even_le [of "\<bar>x\<bar> * 2 ^ i" "2 ^ 53"] by simp
  then have "?r * 2 ^ j \<le> 2 ^ 53 * 2 ^ j"
    by (simp add: mult_right_mono)
  also have "\<dots> = (2::int) ^ (53 + j)"
    by (simp only: power_add)
  also have "\<dots> < (2::int) ^ (max_exp + ulp_exp)"
    by (rule power_strict_increasing) (simp_all add: u max_exp_def)
  finally have c: "\<not> 2 ^ (max_exp + ulp_exp) \<le> ?r * 2 ^ j" by simp
  have v: "sgn x * of_int (?r * 2 ^ j) / ?S = sgn x * of_int ?r / 2 ^ i"
    by (simp add: u power_add)
  show ?thesis
    unfolding round_double_binade [OF lo hi] t v using c by simp
qed

lemma round_double_subnormal:
  assumes "\<bar>x\<bar> * 2 ^ ulp_exp < 2 ^ 53"
  shows "round_double x
    = Finite (sgn x * of_int (round_half_even (\<bar>x\<bar> * 2 ^ ulp_exp)) / 2 ^ ulp_exp)"
proof -
  let ?r = "round_half_even (\<bar>x\<bar> * 2 ^ ulp_exp)"
  have "?r \<le> 2 ^ 53"
    using assms round_half_even_le [of "\<bar>x\<bar> * 2 ^ ulp_exp" "2 ^ 53"] by simp
  also have "\<dots> < (2::int) ^ (max_exp + ulp_exp)"
    by (rule power_strict_increasing) (simp_all add: max_exp_def)
  finally have c: "\<not> 2 ^ (max_exp + ulp_exp) \<le> ?r" by simp
  show ?thesis
    unfolding round_double_def Let_def shift_of_small [OF assms] using c by simp
qed

lemma two_power_step: "(2::'a::comm_semiring_1) ^ (52 + k) * 2 = 2 ^ (53 + k)"
proof -
  have "(2::'a) ^ Suc (52 + k) = 2 ^ (52 + k) * 2" by (simp only: power_Suc mult.commute)
  moreover have "Suc (52 + k) = 53 + k" by simp
  ultimately show ?thesis by (simp only:)
qed

lemma bitlen_shift:
  assumes "(2::int) ^ 52 \<le> N"
  shows "2 ^ (52 + nat (bitlen N - 53)) \<le> N" and "N < 2 ^ (53 + nat (bitlen N - 53))"
proof -
  have pos: "0 < N" using assms by (simp add: order.strict_trans2 [of 0 "2 ^ 52"])
  have "53 \<le> bitlen N"
    using assms by (simp add: bitlen_ge_iff_power)
  then have "nat (bitlen N - 1) = 52 + nat (bitlen N - 53)"
    and "nat (bitlen N) = 53 + nat (bitlen N - 53)"
    by linarith+
  then show "2 ^ (52 + nat (bitlen N - 53)) \<le> N" and "N < 2 ^ (53 + nat (bitlen N - 53))"
    using bitlen_bounds [OF pos] by simp_all
qed

lemma scaled_binade:
  assumes "2 ^ 52 \<le> s"
  shows "2 ^ (52 + nat (bitlen \<lfloor>s\<rfloor> - 53)) \<le> s"
    and "s < 2 ^ (53 + nat (bitlen \<lfloor>s\<rfloor> - 53))"
proof -
  let ?k = "nat (bitlen \<lfloor>s\<rfloor> - 53)"
  have N: "(2::int) ^ 52 \<le> \<lfloor>s\<rfloor>"
    using assms by (simp add: le_floor_iff)
  have "(2::int) ^ (52 + ?k) \<le> \<lfloor>s\<rfloor>" by (rule bitlen_shift(1) [OF N])
  then have "of_int ((2::int) ^ (52 + ?k)) \<le> s" by (simp only: le_floor_iff)
  then show "2 ^ (52 + ?k) \<le> s" by simp
  have "\<lfloor>s\<rfloor> < (2::int) ^ (53 + ?k)" by (rule bitlen_shift(2) [OF N])
  then have "s < of_int ((2::int) ^ (53 + ?k))" by (simp only: floor_less_iff)
  then show "s < 2 ^ (53 + ?k)" by simp
qed

lemma round_double_overflow:
  assumes "2 ^ max_exp \<le> \<bar>x\<bar>"
  shows "round_double x = (if 0 < x then PosInf else NegInf)"
proof -
  let ?S = "(2::real) ^ ulp_exp"
  let ?s = "\<bar>x\<bar> * ?S"
  let ?k = "nat (bitlen \<lfloor>?s\<rfloor> - 53)"
  have big: "2 ^ (max_exp + ulp_exp) \<le> ?s"
    using assms by (simp add: power_add)
  have "(2::real) ^ 52 \<le> 2 ^ (max_exp + ulp_exp)"
    by (rule power_increasing) (simp_all add: max_exp_def)
  then have n: "2 ^ 52 \<le> ?s" using big by simp
  have "?s < 2 ^ (53 + ?k)" by (rule scaled_binade(2) [OF n])
  with big have "(2::real) ^ (max_exp + ulp_exp) < 2 ^ (53 + ?k)" by (rule le_less_trans)
  then have "max_exp + ulp_exp < 53 + ?k" by simp
  then have e: "max_exp + ulp_exp \<le> 52 + ?k" by simp
  have "2 ^ (52 + ?k) \<le> ?s" by (rule scaled_binade(1) [OF n])
  then have "of_int (2 ^ 52) \<le> ?s / 2 ^ ?k"
    by (simp add: power_add pos_le_divide_eq)
  then have r: "2 ^ 52 \<le> round_half_even (?s / 2 ^ ?k)"
    by (rule round_half_even_ge)
  have "(2::int) ^ (max_exp + ulp_exp) \<le> 2 ^ (52 + ?k)"
    using e by (rule power_increasing) simp
  also have "\<dots> = 2 ^ 52 * 2 ^ ?k"
    by (simp only: power_add)
  also have "\<dots> \<le> round_half_even (?s / 2 ^ ?k) * 2 ^ ?k"
    using r by (rule mult_right_mono) simp
  finally have "2 ^ (max_exp + ulp_exp) \<le> round_half_even (?s / 2 ^ ?k) * 2 ^ ?k" .
  then show ?thesis
    unfolding round_double_def Let_def by simp
qed

lemma round_double_error:
  assumes "2 ^ 52 \<le> \<bar>x\<bar> * 2 ^ ulp_exp" and "round_double x = Finite r"
  shows "\<bar>r - x\<bar> \<le> \<bar>x\<bar> / 2 ^ 53"
proof -
  let ?S = "(2::real) ^ ulp_exp"
  let ?s = "\<bar>x\<bar> * ?S"
  let ?k = "nat (bitlen \<lfloor>?s\<rfloor> - 53)"
  let ?m = "round_half_even (?s / 2 ^ ?k) * 2 ^ ?k"
  have r: "r = sgn x * of_int ?m / ?S"
    using assms(2) unfolding round_double_def Let_def by (simp split: if_splits)
  have "\<bar>of_int (round_half_even (?s / 2 ^ ?k)) - ?s / 2 ^ ?k\<bar> \<le> 1 / 2"
    by (rule round_half_even_near)
  then have "\<bar>of_int (round_half_even (?s / 2 ^ ?k)) - ?s / 2 ^ ?k\<bar> * 2 ^ ?k \<le> 1 / 2 * 2 ^ ?k"
    by (rule mult_right_mono) simp
  moreover have "\<bar>of_int (round_half_even (?s / 2 ^ ?k)) - ?s / 2 ^ ?k\<bar> * 2 ^ ?k
      = \<bar>of_int ?m - ?s\<bar>"
  proof -
    have "of_int ?m - ?s = (of_int (round_half_even (?s / 2 ^ ?k)) - ?s / 2 ^ ?k) * 2 ^ ?k"
      by (simp add: left_diff_distrib)
    then show ?thesis by (simp add: abs_mult)
  qed
  moreover have "1 / 2 * 2 ^ ?k \<le> ?s / 2 ^ 53"
  proof -
    have "2 ^ (52 + ?k) \<le> ?s" by (rule scaled_binade(1) [OF assms(1)])
    then have "2 ^ (52 + ?k) / 2 ^ 53 \<le> ?s / 2 ^ 53"
      by (rule divide_right_mono) simp
    moreover have "(2::real) ^ (52 + ?k) / 2 ^ 53 = 1 / 2 * 2 ^ ?k"
      by (simp add: power_add)
    ultimately show ?thesis by simp
  qed
  ultimately have m: "\<bar>of_int ?m - ?s\<bar> \<le> ?s / 2 ^ 53" by simp
  have "x \<noteq> 0" using assms(1) by auto
  then have sg: "sgn x * sgn x = 1" and x: "x = sgn x * \<bar>x\<bar>"
    by (simp_all add: sgn_if)
  have "r - x = sgn x * ((of_int ?m - ?s) / ?S)"
  proof -
    have "sgn x * ((of_int ?m - ?s) / ?S) = sgn x * of_int ?m / ?S - sgn x * \<bar>x\<bar>"
      by (simp add: diff_divide_distrib right_diff_distrib)
    then show ?thesis using r x by simp
  qed
  then have "\<bar>r - x\<bar> = \<bar>of_int ?m - ?s\<bar> / ?S"
    using \<open>x \<noteq> 0\<close> by (simp add: abs_mult sgn_if)
  also have "\<dots> \<le> ?s / 2 ^ 53 / ?S"
    using m by (rule divide_right_mono) simp
  also have "\<dots> = \<bar>x\<bar> / 2 ^ 53" by simp
  finally show ?thesis .
qed

lemma round_double_finite:
  assumes "\<bar>x\<bar> * 2 < 2 ^ max_exp"
  shows "\<exists>r. round_double x = Finite r"
proof (cases "\<bar>x\<bar> * 2 ^ ulp_exp < 2 ^ 53")
  case True
  then show ?thesis by (simp add: round_double_subnormal)
next
  case False
  let ?S = "(2::real) ^ ulp_exp"
  let ?s = "\<bar>x\<bar> * ?S"
  let ?k = "nat (bitlen \<lfloor>?s\<rfloor> - 53)"
  have "(2::real) ^ 52 \<le> 2 ^ 53" by simp
  then have n: "2 ^ 52 \<le> ?s" using False by linarith
  have lo: "2 ^ (52 + ?k) \<le> ?s" and hi: "?s < 2 ^ (53 + ?k)"
    by (rule scaled_binade [OF n])+
  have "?s * 2 < 2 ^ max_exp * ?S"
    using assms mult_strict_right_mono [of "\<bar>x\<bar> * 2" "2 ^ max_exp" ?S]
    by (simp add: mult.commute mult.left_commute)
  moreover have "2 ^ (52 + ?k) * 2 \<le> ?s * 2" using lo by simp
  ultimately have "2 ^ (52 + ?k) * 2 < (2::real) ^ max_exp * ?S" by (rule le_less_trans [rotated])
  moreover have "(2::real) ^ (52 + ?k) * 2 = 2 ^ (53 + ?k)" by (rule two_power_step)
  moreover have "(2::real) ^ max_exp * ?S = 2 ^ (max_exp + ulp_exp)" by (simp only: power_add)
  ultimately have "(2::real) ^ (53 + ?k) < 2 ^ (max_exp + ulp_exp)"
    by (simp only:)
  then have e: "53 + ?k < max_exp + ulp_exp" by simp
  have "?s / 2 ^ ?k \<le> of_int (2 ^ 53)"
    using hi by (simp add: power_add pos_divide_le_eq)
  then have "round_half_even (?s / 2 ^ ?k) \<le> 2 ^ 53"
    by (rule round_half_even_le)
  then have "round_half_even (?s / 2 ^ ?k) * 2 ^ ?k \<le> 2 ^ 53 * 2 ^ ?k"
    by (simp add: mult_right_mono)
  also have "\<dots> = (2::int) ^ (53 + ?k)" by (simp only: power_add)
  also have "\<dots> < 2 ^ (max_exp + ulp_exp)"
    using e by (rule power_strict_increasing) simp
  finally show ?thesis
    unfolding round_double_def Let_def by simp
qed

subsection \<open>Rounding at particular numbers\<close>

lemma round_double_0: "round_double 0 = Finite 0"
  by (subst round_double_subnormal) (simp_all add: round_half_even_def)

lemma round_double_2: "round_double 2 = Finite 2"
  by (subst round_double_fine [of 51]) (simp_all add: round_half_even_def ulp_exp_def)

lemma round_double_49: "round_double 49 = Finite 49"
  by (subst round_double_fine [of 47]) (simp_all add: round_half_even_def ulp_exp_def)

lemma round_double_quotient_1_49: "round_double (1 / 49) = Finite (5882252574524729 / 2 ^ 58)"
  by (subst round_double_fine [of 58]) (simp_all add: round_half_even_def ulp_exp_def)

lemma round_double_product_49:
  "round_double (5882252574524729 / 2 ^ 58 * 49) = Finite (1 - 1 / 2 ^ 53)"
  by (subst round_double_fine [of 53]) (simp_all add: round_half_even_def ulp_exp_def)

lemma round_double_half_ulp: "round_double (1 / 2 ^ ulp_exp / 2) = Finite 0"
  by (subst round_double_subnormal) (simp_all add: round_half_even_def)

lemma round_double_2_1024: "round_double (2 ^ 1023 / (1 / 2)) = PosInf"
  by (subst round_double_overflow) (simp_all add: max_exp_def)

lemma round_double_10_400: "round_double (10 ^ 400) = PosInf"
  by (subst round_double_overflow) (simp_all add: max_exp_def)

lemma round_double_1e16: "round_double (10 ^ 16) = Finite (10 ^ 16)"
  by (subst round_double_coarse [of 1]) (simp_all add: round_half_even_def max_exp_def)

lemma round_double_1e16_plus_1: "round_double (10 ^ 16 + 1) = Finite (10 ^ 16)"
  by (subst round_double_coarse [of 1]) (simp_all add: round_half_even_def max_exp_def)

subsection \<open>Python arithmetic\<close>

lemma double_add_commute: "double_add x y = double_add y x"
  by (cases x; cases y) (simp_all add: add.commute)

lemma py_add_commute: "py_add a b = py_add b a"
proof (cases a; cases b)
  fix i j assume "a = PyInt i" "b = PyInt j"
  then show ?thesis by (simp add: add.commute)
next
  fix i y assume "a = PyInt i" "b = PyFloat y"
  then show ?thesis by (simp add: double_add_commute split: sum.splits double.splits)
next
  fix x j assume "a = PyFloat x" "b = PyInt j"
  then show ?thesis by (simp add: double_add_commute split: sum.splits double.splits)
next
  fix x y assume "a = PyFloat x" "b = PyFloat y"
  then show ?thesis by (simp add: double_add_commute)
qed

lemma as_double_not_ValueError: "as_double a \<noteq> Inl (ValueError m)"
  by (cases a) (simp_all split: double.splits)

lemma double_div_not_ValueError: "double_div x y \<noteq> Inl (ValueError m)"
  by (cases x; cases y) (simp_all split: double.splits)

lemma py_truediv_not_ValueError: "py_truediv a b \<noteq> Inl (ValueError m)"
proof (cases a; cases b)
  fix i j assume "a = PyInt i" "b = PyInt j"
  then show ?thesis by (simp split: double.splits)
next
  fix i y assume "a = PyInt i" "b = PyFloat y"
  then show ?thesis
    using double_div_not_ValueError by (auto split: sum.splits double.splits)
next
  fix x j assume "a = PyFloat x" "b = PyInt j"
  then show ?thesis
    using double_div_not_ValueError by (auto split: sum.splits double.splits)
next
  fix x y assume "a = PyFloat x" "b = PyFloat y"
  then show ?thesis
    using double_div_not_ValueError by (auto split: sum.splits)
qed

lemma double_div_total: "\<not> eq_zero (PyFloat y) \<Longrightarrow> \<exists>d. double_div x y = Inr d"
  by (cases x; cases y) simp_all

lemma divide_ValueError_iff:
  "divide a b = Inl (ValueError m) \<longleftrightarrow> eq_zero b \<and> m = ''Cannot divide by zero''"
  by (auto simp: divide_def py_truediv_not_ValueError)

text \<open>
  Two roundings, of a quotient and of its product with the divisor, when neither
  overflows nor underflows: each is within \<open>2 ^ -53\<close> of its argument, relatively.
\<close>

lemma quotient_product_error:
  assumes y: "y \<noteq> 0"
    and xlo: "2 ^ 53 \<le> \<bar>x\<bar> * 2 ^ ulp_exp"
    and xhi: "\<bar>x\<bar> * 4 \<le> 2 ^ max_exp"
    and qlo: "2 ^ 52 \<le> \<bar>x / y\<bar> * 2 ^ ulp_exp"
    and qhi: "\<bar>x / y\<bar> * 2 < 2 ^ max_exp"
  shows "\<exists>q p. round_double (x / y) = Finite q \<and> round_double (q * y) = Finite p
     \<and> \<bar>p - x\<bar> \<le> \<bar>x\<bar> * (2 / 2 ^ 53 + 1 / 2 ^ 106)"
proof -
  define e :: real where "e = 1 / 2 ^ 53"
  have e: "0 < e" "e \<le> 1 / 2" "e < 1" by (simp_all add: e_def)
  have xpos: "0 < \<bar>x\<bar>"
  proof (rule ccontr)
    assume "\<not> 0 < \<bar>x\<bar>"
    then have "\<bar>x\<bar> * 2 ^ ulp_exp = 0" by simp
    then show False using xlo by simp
  qed
  obtain q where q: "round_double (x / y) = Finite q"
    using round_double_finite [OF qhi] by blast
  have "\<bar>q - x / y\<bar> \<le> \<bar>x / y\<bar> / 2 ^ 53"
    using qlo q by (rule round_double_error)
  then have qe: "\<bar>q - x / y\<bar> \<le> \<bar>x / y\<bar> * e" by (simp add: e_def)
  have "q * y - x = (q - x / y) * y" using y by (simp add: left_diff_distrib)
  then have "\<bar>q * y - x\<bar> = \<bar>q - x / y\<bar> * \<bar>y\<bar>" by (simp add: abs_mult)
  also have "\<dots> \<le> \<bar>x / y\<bar> * e * \<bar>y\<bar>"
    using qe by (rule mult_right_mono) simp
  also have "\<dots> = \<bar>x\<bar> * e" using y by (simp add: abs_divide)
  finally have A: "\<bar>q * y - x\<bar> \<le> \<bar>x\<bar> * e" .
  have up: "\<bar>q * y\<bar> \<le> \<bar>x\<bar> + \<bar>x\<bar> * e" using A by linarith
  have down: "\<bar>x\<bar> - \<bar>x\<bar> * e \<le> \<bar>q * y\<bar>" using A by linarith
  have "\<bar>x\<bar> * e \<le> \<bar>x\<bar> * (1 / 2)"
    using e(2) by (rule mult_left_mono) simp
  then have half: "\<bar>x\<bar> / 2 \<le> \<bar>q * y\<bar>" using down by simp
  have plo: "2 ^ 52 \<le> \<bar>q * y\<bar> * 2 ^ ulp_exp"
  proof -
    have "(2::real) ^ 52 = 2 ^ 53 / 2" by simp
    also have "\<dots> \<le> \<bar>x\<bar> * 2 ^ ulp_exp / 2" using xlo by simp
    also have "\<dots> = \<bar>x\<bar> / 2 * 2 ^ ulp_exp" by simp
    also have "\<dots> \<le> \<bar>q * y\<bar> * 2 ^ ulp_exp"
      using half by (rule mult_right_mono) simp
    finally show ?thesis .
  qed
  have "\<bar>x\<bar> * e < \<bar>x\<bar> * 1"
    using e(3) xpos by (rule mult_strict_left_mono)
  then have "\<bar>q * y\<bar> < \<bar>x\<bar> * 2" using up by simp
  then have phi: "\<bar>q * y\<bar> * 2 < 2 ^ max_exp" using xhi by simp
  obtain p where p: "round_double (q * y) = Finite p"
    using round_double_finite [OF phi] by blast
  have "\<bar>p - q * y\<bar> \<le> \<bar>q * y\<bar> / 2 ^ 53"
    using plo p by (rule round_double_error)
  then have "\<bar>p - q * y\<bar> \<le> \<bar>q * y\<bar> * e" by (simp add: e_def)
  also have "\<dots> \<le> (\<bar>x\<bar> + \<bar>x\<bar> * e) * e"
    using up by (rule mult_right_mono) (simp add: e(1) less_imp_le)
  finally have B: "\<bar>p - q * y\<bar> \<le> (\<bar>x\<bar> + \<bar>x\<bar> * e) * e" .
  have "\<bar>p - x\<bar> \<le> \<bar>p - q * y\<bar> + \<bar>q * y - x\<bar>" by simp
  also have "\<dots> \<le> (\<bar>x\<bar> + \<bar>x\<bar> * e) * e + \<bar>x\<bar> * e" using A B by simp
  also have "\<dots> = \<bar>x\<bar> * (2 * e + e * e)" by (simp add: algebra_simps)
  also have "2 * e + e * e = 2 / 2 ^ 53 + 1 / 2 ^ 106" by (simp add: e_def)
  finally have "\<bar>p - x\<bar> \<le> \<bar>x\<bar> * (2 / 2 ^ 53 + 1 / 2 ^ 106)" .
  with q p show ?thesis by blast
qed

text \<open>Ints below \<open>2 ^ 53\<close> in magnitude convert exactly.\<close>

lemma round_double_of_int:
  assumes "\<bar>n\<bar> < 2 ^ 53"
  shows "round_double (of_int n) = Finite (of_int n)"
proof (cases "n = 0")
  case True
  then show ?thesis by (simp add: round_double_0)
next
  case False
  define a where "a = \<bar>n\<bar>"
  have pos: "0 < a" using False by (simp add: a_def)
  have b53: "bitlen a \<le> 53"
    using assms by (simp add: bitlen_le_iff_power a_def)
  have b1: "1 \<le> bitlen a"
    using pos by (simp add: bitlen_ge_iff_power)
  define i where "i = nat (53 - bitlen a)"
  have e1: "nat (bitlen a - 1) + i = 52" and e2: "nat (bitlen a) + i = 53"
    using b53 b1 by (simp_all add: i_def)
  have "(2::int) ^ 52 = 2 ^ nat (bitlen a - 1) * 2 ^ i"
    by (simp only: e1 flip: power_add)
  also have "\<dots> \<le> a * 2 ^ i"
    using bitlen_bounds [OF pos] by (simp add: mult_right_mono)
  finally have lo: "(2::int) ^ 52 \<le> a * 2 ^ i" .
  have "a * 2 ^ i < 2 ^ nat (bitlen a) * 2 ^ i"
    using bitlen_bounds [OF pos] by (simp add: mult_strict_right_mono)
  also have "\<dots> = (2::int) ^ 53"
    by (simp only: e2 flip: power_add)
  finally have hi: "a * 2 ^ i < (2::int) ^ 53" .
  have r: "\<bar>real_of_int n\<bar> * 2 ^ i = of_int (a * 2 ^ i)"
    by (simp add: a_def)
  have "i \<le> ulp_exp" using b1 by (simp add: i_def ulp_exp_def)
  moreover have "2 ^ 52 \<le> \<bar>real_of_int n\<bar> * 2 ^ i"
    unfolding r using lo by (metis of_int_le_iff of_int_numeral of_int_power)
  moreover have "\<bar>real_of_int n\<bar> * 2 ^ i < 2 ^ 53"
    unfolding r using hi by (metis of_int_less_iff of_int_numeral of_int_power)
  ultimately have "round_double (of_int n)
      = Finite (sgn (real_of_int n) * of_int (round_half_even (\<bar>real_of_int n\<bar> * 2 ^ i)) / 2 ^ i)"
    by (rule round_double_fine)
  also have "round_half_even (\<bar>real_of_int n\<bar> * 2 ^ i) = a * 2 ^ i"
    unfolding r by (rule round_half_even_of_int)
  also have "sgn (real_of_int n) * of_int (a * 2 ^ i) / 2 ^ i = of_int n"
    by (simp add: a_def sgn_if)
  finally show ?thesis .
qed

lemma has_value_as_double: "has_value a x \<Longrightarrow> as_double a = Inr (Finite x)"
proof (cases a)
  case (PyInt i)
  assume "has_value a x"
  then show ?thesis using PyInt by (simp add: round_double_of_int)
next
  case (PyFloat d)
  assume "has_value a x"
  then show ?thesis using PyFloat by (cases d) simp_all
qed

lemma has_value_eq_zero: "has_value b y \<Longrightarrow> eq_zero b \<longleftrightarrow> y = 0"
proof (cases b)
  case (PyInt j)
  assume "has_value b y"
  then show ?thesis using PyInt by auto
next
  case (PyFloat d)
  assume "has_value b y"
  then show ?thesis using PyFloat by (cases d) simp_all
qed

lemma has_value_truediv:
  assumes "has_value a x" and "has_value b y" and "y \<noteq> 0"
    and "round_double (x / y) = Finite q"
  shows "py_truediv a b = Inr (PyFloat (Finite q))"
proof (cases a; cases b)
  fix i j assume "a = PyInt i" "b = PyInt j"
  then show ?thesis using assms by auto
next
  fix i d assume "a = PyInt i" "b = PyFloat d"
  then show ?thesis
    using assms has_value_as_double [OF assms(1)] has_value_as_double [OF assms(2)] by simp
next
  fix d j assume "a = PyFloat d" "b = PyInt j"
  then show ?thesis
    using assms has_value_as_double [OF assms(1)] has_value_as_double [OF assms(2)] by simp
next
  fix d d' assume "a = PyFloat d" "b = PyFloat d'"
  then show ?thesis
    using assms has_value_as_double [OF assms(1)] has_value_as_double [OF assms(2)] by simp
qed

lemma has_value_mul:
  assumes "has_value b y"
  shows "py_mul (PyFloat (Finite q)) b = Inr (PyFloat (round_double (q * y)))"
  using has_value_as_double [OF assms] by (cases b) simp_all

subsection \<open>Runs of the calculator\<close>

lemma since_reset_snoc:
  "since_reset (cs @ [c]) = (if c = Reset then [] else since_reset cs @ [c])"
  by (simp add: since_reset_def)

lemma net_Nil: "net [] = 0"
  by (simp add: net_def since_reset_def added_def subtracted_def)

lemma net_snoc: "net (cs @ [c]) = exact_step c (net cs)"
  by (cases c) (simp_all add: net_def since_reset_snoc added_def subtracted_def)

lemma exact_totals_snoc:
  "exact_totals (cs @ [c]) r
     = exact_totals cs r @ [exact_step c (foldl (\<lambda>r c. exact_step c r) r cs)]"
  by (induction cs arbitrary: r) simp_all

lemma foldl_exact_step: "foldl (\<lambda>r c. exact_step c r) 0 cs = net cs"
  by (induction cs rule: rev_induct) (simp_all add: net_Nil net_snoc)

lemma exact_totals_net:
  "exact_totals cs 0 = map (\<lambda>i. net (take (Suc i) cs)) [0..<length cs]"
proof (induction cs rule: rev_induct)
  case Nil
  show ?case by simp
next
  case (snoc c cs)
  then show ?case
    by (simp add: exact_totals_snoc foldl_exact_step net_snoc)
qed

lemma perform_int:
  "perform (map_call PyInt c) \<lparr>result = PyInt r\<rparr>
     = Inr (PyInt (exact_step c r), \<lparr>result = PyInt (exact_step c r)\<rparr>)"
  by (cases c) (simp_all add: Calculator_add_def Calculator_subtract_def Calculator_reset_def)

lemma run_ints:
  "run (map (map_call PyInt) ics) \<lparr>result = PyInt r\<rparr>
     = Inr (map PyInt (exact_totals ics r),
            \<lparr>result = PyInt (foldl (\<lambda>r c. exact_step c r) r ics)\<rparr>)"
  by (induction ics arbitrary: r) (simp_all add: perform_int)

section \<open>Top-level arithmetic\<close>

text \<open>
  C7: the top-level \<open>add\<close> is commutative: \<open>add(a, b) = add(b, a)\<close> for all numbers.
\<close>

theorem add_commutative: "add a b = add b a"
  by (simp add: add_def py_add_commute)

text \<open>
  C3, as the code has it: \<open>divide(a, b)\<close> raises the ValueError exactly when \<open>b == 0\<close>.
  For every other \<open>b\<close> it raises no ValueError and returns \<open>a / b\<close> as Python computes
  it. For ints \<open>a\<close> and \<open>b\<close> that is the float nearest to the exact quotient, within
  the relative error \<open>2 ^ -53\<close> when the quotient is not below \<open>2 ^ -1022\<close>, and an
  OverflowError when the quotient is beyond the floats. For floats \<open>a\<close> and \<open>b\<close> it is
  the IEEE quotient, and nothing is raised.
\<close>

theorem divide_raises_iff_zero:
  "((\<exists>m. divide a b = Inl (ValueError m)) \<longleftrightarrow> eq_zero b)
   \<and> (divide a b = Inl (ValueError ''Cannot divide by zero'') \<longleftrightarrow> eq_zero b)
   \<and> (\<not> eq_zero b \<longrightarrow> divide a b = py_truediv a b)
   \<and> (j \<noteq> 0 \<longrightarrow>
        divide (PyInt i) (PyInt j)
          = (case round_double (of_int i / of_int j) of
               Finite q \<Rightarrow> Inr (PyFloat (Finite q))
             | _ \<Rightarrow> Inl OverflowError))
   \<and> (j \<noteq> 0 \<longrightarrow> 2 ^ 52 \<le> \<bar>of_int i / of_int j :: real\<bar> * 2 ^ ulp_exp \<longrightarrow>
        divide (PyInt i) (PyInt j) = Inr (PyFloat (Finite q)) \<longrightarrow>
        \<bar>q - of_int i / of_int j\<bar> \<le> \<bar>of_int i / of_int j\<bar> / 2 ^ 53)
   \<and> (\<not> eq_zero (PyFloat y) \<longrightarrow> (\<exists>d. divide (PyFloat x) (PyFloat y) = Inr (PyFloat d)))"
proof (intro conjI impI)
  show "(\<exists>m. divide a b = Inl (ValueError m)) \<longleftrightarrow> eq_zero b"
    by (simp add: divide_ValueError_iff)
  show "divide a b = Inl (ValueError ''Cannot divide by zero'') \<longleftrightarrow> eq_zero b"
    by (simp add: divide_ValueError_iff)
  show "divide a b = py_truediv a b" if "\<not> eq_zero b"
    using that by (simp add: divide_def)
  show "divide (PyInt i) (PyInt j)
      = (case round_double (of_int i / of_int j) of
           Finite q \<Rightarrow> Inr (PyFloat (Finite q))
         | _ \<Rightarrow> Inl OverflowError)" if "j \<noteq> 0"
    using that by (simp add: divide_def)
  show "\<bar>q - of_int i / of_int j\<bar> \<le> \<bar>of_int i / of_int j\<bar> / 2 ^ 53"
    if "j \<noteq> 0" and n: "2 ^ 52 \<le> \<bar>of_int i / of_int j :: real\<bar> * 2 ^ ulp_exp"
      and d: "divide (PyInt i) (PyInt j) = Inr (PyFloat (Finite q))"
  proof -
    have "round_double (of_int i / of_int j) = Finite q"
      using d \<open>j \<noteq> 0\<close> by (simp add: divide_def split: double.splits)
    with n show ?thesis by (rule round_double_error)
  qed
  show "\<exists>d. divide (PyFloat x) (PyFloat y) = Inr (PyFloat d)" if "\<not> eq_zero (PyFloat y)"
    using that double_div_total [OF that, of x] by (auto simp: divide_def)
qed

theorem divide_raises_iff_zero_witness:
  "divide (PyInt 7) (PyFloat (Finite 0)) = Inl (ValueError ''Cannot divide by zero'')
   \<and> divide (PyInt 1) (PyInt 49) = Inr (PyFloat (Finite (5882252574524729 / 2 ^ 58)))
   \<and> \<bar>5882252574524729 / 2 ^ 58 - 1 / 49\<bar> \<le> \<bar>1 / 49 :: real\<bar> / 2 ^ 53
   \<and> (\<exists>d. divide (PyFloat (Finite 1)) (PyFloat (Finite 2)) = Inr (PyFloat d))"
proof -
  note zero = divide_raises_iff_zero [of "PyInt 7" "PyFloat (Finite 0)"]
  note ints = divide_raises_iff_zero [of _ _ 49 1 "5882252574524729 / 2 ^ 58"]
  note floats = divide_raises_iff_zero [of _ _ _ _ _ "Finite 2" "Finite 1"]
  have z: "eq_zero (PyFloat (Finite 0))" by simp
  have j: "(49::int) \<noteq> 0" by simp
  have n: "2 ^ 52 \<le> \<bar>of_int 1 / of_int 49 :: real\<bar> * 2 ^ ulp_exp"
    by (simp add: ulp_exp_def)
  have nz: "\<not> eq_zero (PyFloat (Finite 2))" by simp
  have a: "divide (PyInt 7) (PyFloat (Finite 0)) = Inl (ValueError ''Cannot divide by zero'')"
    using zero z by blast
  have "divide (PyInt 1) (PyInt 49)
      = (case round_double (of_int 1 / of_int 49) of
           Finite q \<Rightarrow> Inr (PyFloat (Finite q))
         | _ \<Rightarrow> Inl OverflowError)"
    using ints j by blast
  then have b: "divide (PyInt 1) (PyInt 49)
      = Inr (PyFloat (Finite (5882252574524729 / 2 ^ 58)))"
    using round_double_quotient_1_49 by simp
  have "\<bar>5882252574524729 / 2 ^ 58 - of_int 1 / of_int 49\<bar>
      \<le> \<bar>of_int 1 / of_int 49 :: real\<bar> / 2 ^ 53"
    using ints j n b by blast
  then have c: "\<bar>5882252574524729 / 2 ^ 58 - 1 / 49\<bar> \<le> \<bar>1 / 49 :: real\<bar> / 2 ^ 53"
    by simp
  have d: "\<exists>d. divide (PyFloat (Finite 1)) (PyFloat (Finite 2)) = Inr (PyFloat d)"
    using floats nz by blast
  from a b c d show ?thesis by (intro conjI)
qed

text \<open>
  The claim C3 as it was stated, that \<open>divide\<close> raises no error when \<open>b\<close> is not zero,
  fails on ints whose quotient is beyond the floats: \<open>divide(10 ** 400, 1)\<close> raises
  OverflowError.
\<close>

theorem divide_overflow_counterexample:
  "\<not> eq_zero (PyInt 1) \<and> divide (PyInt (10 ^ 400)) (PyInt 1) = Inl OverflowError"
  using round_double_10_400 by (simp add: divide_def)

text \<open>
  C8, as the code has it: for numbers \<open>a\<close> and \<open>b\<close>, each a finite float or an int
  of magnitude below \<open>2 ^ 53\<close>, with \<open>b\<close> not zero, \<open>2 ^ -1021 \<le> \<bar>a\<bar> \<le> 2 ^ 1022\<close> and
  \<open>2 ^ -1022 \<le> \<bar>a / b\<bar> < 2 ^ 1023\<close>, so that neither the quotient nor the product
  overflows or underflows, \<open>divide(a, b) * b\<close> is a finite float \<open>p\<close> with
  \<open>\<bar>p - a\<bar> \<le> (2 ^ -52 + 2 ^ -106) * \<bar>a\<bar>\<close>. It need not equal \<open>a\<close>.
\<close>

theorem divide_times_divisor:
  assumes "has_value a x" and "has_value b y" and "y \<noteq> 0"
    and "2 ^ 53 \<le> \<bar>x\<bar> * 2 ^ ulp_exp"
    and "\<bar>x\<bar> * 4 \<le> 2 ^ max_exp"
    and "2 ^ 52 \<le> \<bar>x / y\<bar> * 2 ^ ulp_exp"
    and "\<bar>x / y\<bar> * 2 < 2 ^ max_exp"
  shows "\<exists>q p. divide a b = Inr (PyFloat (Finite q))
     \<and> py_mul (PyFloat (Finite q)) b = Inr (PyFloat (Finite p))
     \<and> \<bar>p - x\<bar> \<le> \<bar>x\<bar> * (2 / 2 ^ 53 + 1 / 2 ^ 106)"
proof -
  obtain q p where q: "round_double (x / y) = Finite q" and p: "round_double (q * y) = Finite p"
    and e: "\<bar>p - x\<bar> \<le> \<bar>x\<bar> * (2 / 2 ^ 53 + 1 / 2 ^ 106)"
    using quotient_product_error [OF assms(3-7)] by blast
  have "divide a b = Inr (PyFloat (Finite q))"
    using has_value_truediv [OF assms(1-3) q] has_value_eq_zero [OF assms(2)] assms(3)
    by (simp add: divide_def)
  moreover have "py_mul (PyFloat (Finite q)) b = Inr (PyFloat (Finite p))"
    using has_value_mul [OF assms(2)] p by simp
  ultimately show ?thesis using e by blast
qed

theorem divide_times_divisor_witness:
  "\<exists>q p. divide (PyInt 1) (PyFloat (Finite 3)) = Inr (PyFloat (Finite q))
     \<and> py_mul (PyFloat (Finite q)) (PyFloat (Finite 3)) = Inr (PyFloat (Finite p))
     \<and> \<bar>p - 1\<bar> \<le> 2 / 2 ^ 53 + 1 / 2 ^ 106"
proof -
  have "has_value (PyInt 1) 1" by simp
  moreover have "has_value (PyFloat (Finite 3)) 3" by simp
  moreover have "(3::real) \<noteq> 0" by simp
  moreover have "2 ^ 53 \<le> \<bar>1::real\<bar> * 2 ^ ulp_exp" by (simp add: ulp_exp_def)
  moreover have "\<bar>1::real\<bar> * 4 \<le> 2 ^ max_exp" by (simp add: max_exp_def)
  moreover have "2 ^ 52 \<le> \<bar>1 / 3 :: real\<bar> * 2 ^ ulp_exp" by (simp add: ulp_exp_def)
  moreover have "\<bar>1 / 3 :: real\<bar> * 2 < 2 ^ max_exp" by (simp add: max_exp_def)
  ultimately show ?thesis
    using divide_times_divisor [of "PyInt 1" 1 "PyFloat (Finite 3)" 3] by simp
qed

text \<open>
  The claim C8 as it was stated fails. The product is not exactly \<open>a\<close>:
  \<open>divide(1, 49) * 49\<close> is \<open>1 - 2 ^ -53\<close>. It is not within a tolerance either when a
  rounding underflows or overflows: \<open>divide(5e-324, 2)\<close> is \<open>0.0\<close>, and
  \<open>divide(2.0 ** 1023, 0.5)\<close> is the infinity, and so are their products with \<open>b\<close>.
\<close>

theorem divide_times_divisor_counterexample:
  "divide (PyInt 1) (PyInt 49) = Inr (PyFloat (Finite (5882252574524729 / 2 ^ 58)))
   \<and> py_mul (PyFloat (Finite (5882252574524729 / 2 ^ 58))) (PyInt 49)
       = Inr (PyFloat (Finite (1 - 1 / 2 ^ 53)))
   \<and> (1 - 1 / 2 ^ 53 :: real) \<noteq> 1
   \<and> divide (PyFloat (Finite (1 / 2 ^ ulp_exp))) (PyInt 2) = Inr (PyFloat (Finite 0))
   \<and> py_mul (PyFloat (Finite 0)) (PyInt 2) = Inr (PyFloat (Finite 0))
   \<and> divide (PyFloat (Finite (2 ^ 1023))) (PyFloat (Finite (1 / 2))) = Inr (PyFloat PosInf)
   \<and> py_mul (PyFloat PosInf) (PyFloat (Finite (1 / 2))) = Inr (PyFloat PosInf)"
proof (intro conjI)
  show "divide (PyInt 1) (PyInt 49) = Inr (PyFloat (Finite (5882252574524729 / 2 ^ 58)))"
    using round_double_quotient_1_49 by (simp add: divide_def)
  show "py_mul (PyFloat (Finite (5882252574524729 / 2 ^ 58))) (PyInt 49)
       = Inr (PyFloat (Finite (1 - 1 / 2 ^ 53)))"
    using round_double_product_49 by (simp add: round_double_49)
  show "(1 - 1 / 2 ^ 53 :: real) \<noteq> 1"
    by simp
  show "divide (PyFloat (Finite (1 / 2 ^ ulp_exp))) (PyInt 2) = Inr (PyFloat (Finite 0))"
    using round_double_half_ulp by (simp add: divide_def round_double_2)
  show "py_mul (PyFloat (Finite 0)) (PyInt 2) = Inr (PyFloat (Finite 0))"
    by (simp add: round_double_2 round_double_0)
  show "divide (PyFloat (Finite (2 ^ 1023))) (PyFloat (Finite (1 / 2))) = Inr (PyFloat PosInf)"
    using round_double_2_1024 by (simp add: divide_def)
  show "py_mul (PyFloat PosInf) (PyFloat (Finite (1 / 2))) = Inr (PyFloat PosInf)"
    by simp
qed

section \<open>Factorial\<close>

text \<open>
  C1: for every integer \<open>n \<ge> 0\<close>, \<open>factorial(n)\<close> returns \<open>n!\<close>, the product
  \<open>1 * 2 * \<dots> * n\<close>, with \<open>factorial(0) = factorial(1) = 1\<close> and
  \<open>factorial(5) = 120\<close>; for every integer \<open>n < 0\<close> it raises the ValueError and
  returns no value.
\<close>

theorem factorial_on_integers:
  "(0 \<le> k \<longrightarrow> factorial (of_int k) = Inr (\<Prod>i = 1..nat k. real i))
   \<and> (k < 0 \<longrightarrow> factorial (of_int k)
          = Inl (ValueError ''Factorial not defined for negative numbers''))
   \<and> factorial 0 = Inr 1 \<and> factorial 1 = Inr 1 \<and> factorial 5 = Inr 120
   \<and> factorial (- 1) = Inl (ValueError ''Factorial not defined for negative numbers'')"
proof (intro conjI impI)
  assume "0 \<le> k"
  then have "real_of_int k = real (nat k)" by simp
  then show "factorial (of_int k) = Inr (\<Prod>i = 1..nat k. real i)"
    by (simp only: factorial_of_nat prod_upto_fact)
next
  assume "k < 0"
  then have "real_of_int k < 0" by simp
  then show "factorial (of_int k)
      = Inl (ValueError ''Factorial not defined for negative numbers'')"
    by (rule factorial_below_zero)
qed (simp_all add: factorial.simps)

theorem factorial_on_integers_witness:
  "factorial 4 = Inr 24
   \<and> factorial (- 3) = Inl (ValueError ''Factorial not defined for negative numbers'')"
proof -
  have "(\<Prod>i = 1..nat 4. real i) = fact (nat 4)" by (rule prod_upto_fact)
  also have "\<dots> = 24" by (simp add: fact_numeral)
  finally have p: "(\<Prod>i = 1..nat 4. real i) = 24" .
  have "(0::int) \<le> 4" and "(- 3 :: int) < 0" by simp_all
  then show ?thesis
    using factorial_on_integers [of 4] factorial_on_integers [of "- 3"] p by simp
qed

text \<open>
  C10: for every non-integer number \<open>n > 0\<close>, such as \<open>2.5\<close>, \<open>factorial(n)\<close> returns no
  value: the arguments \<open>n, n - 1, n - 2, \<dots>\<close> of the recursion never equal \<open>0\<close> or
  \<open>1\<close>, one of them is negative after finitely many steps, and the call raises the
  ValueError "Factorial not defined for negative numbers".
\<close>

theorem factorial_non_integer_raises:
  assumes "n \<notin> \<int>" and "0 < n"
  shows "factorial n = Inl (ValueError ''Factorial not defined for negative numbers'')
    \<and> (\<exists>k. n - real k < 0 \<and> (\<forall>j<k. 0 < n - real j \<and> n - real j \<noteq> 1))"
proof
  show "factorial n = Inl (ValueError ''Factorial not defined for negative numbers'')"
    using assms(1) by (rule factorial_off_integers)
  show "\<exists>k. n - real k < 0 \<and> (\<forall>j<k. 0 < n - real j \<and> n - real j \<noteq> 1)"
    using assms by (rule non_integer_descent)
qed

theorem factorial_non_integer_raises_witness:
  "factorial (5 / 2) = Inl (ValueError ''Factorial not defined for negative numbers'')
   \<and> (5 / 2 :: real) \<notin> \<int> \<and> (0 :: real) < 5 / 2"
proof -
  have a: "(5 / 2 :: real) \<notin> \<int>" by simp
  have b: "(0 :: real) < 5 / 2" by simp
  from factorial_non_integer_raises [OF a b] a b show ?thesis by simp
qed

section \<open>Maximum of a sequence\<close>

text \<open>
  C4: \<open>find_max(numbers)\<close> raises the ValueError exactly when the sequence is empty;
  on every non-empty sequence it returns an element of the sequence that is greater
  than or equal to every element; \<open>find_max([3, 1, 4, 1, 5]) = 5\<close>.
\<close>

theorem find_max_maximum:
  "((\<exists>e. find_max numbers = Inl e) \<longleftrightarrow> numbers = [])
   \<and> (find_max numbers = Inl (ValueError ''List cannot be empty'') \<longleftrightarrow> numbers = [])
   \<and> (numbers \<noteq> [] \<longrightarrow>
        (\<exists>m. find_max numbers = Inr m \<and> m \<in> set numbers \<and> (\<forall>x\<in>set numbers. x \<le> m)))
   \<and> find_max [3, 1, 4, 1, 5] = Inr 5"
proof (cases numbers)
  case Nil
  then show ?thesis by simp
next
  case (Cons x xs)
  have "max_from x xs \<in> set (x # xs)" by (rule max_from_mem)
  moreover have "\<forall>y\<in>set (x # xs). y \<le> max_from x xs"
    using max_from_upper by blast
  ultimately show ?thesis using Cons by simp
qed

theorem find_max_maximum_witness:
  "find_max [2, 7, 4] = Inr 7 \<and> (7::real) \<in> set [2, 7, 4]
   \<and> (\<exists>m. find_max [2, 7, 4] = Inr m \<and> 2 \<le> m \<and> 7 \<le> m \<and> 4 \<le> m)
   \<and> find_max [] = Inl (ValueError ''List cannot be empty'')"
  using find_max_maximum [of "[2, 7, 4]"] find_max_maximum [of "[]"]
  by simp

section \<open>Email validation\<close>

text \<open>
  C2: \<open>is_valid_email(email)\<close> is computed by this rule: false if the string is empty,
  has no \<open>@\<close> or has no dot; otherwise the string is split at \<open>@\<close>, and the result is
  false unless there are exactly two parts, false unless the second part has a dot, and
  true otherwise. So \<open>is_valid_email("a@b.com")\<close> is true, and it is false on \<open>""\<close>,
  \<open>"no-at-sign.com"\<close>, \<open>"a@b@c.com"\<close> and \<open>"a@bcom"\<close>.
\<close>

theorem is_valid_email_rule:
  "(is_valid_email email \<longleftrightarrow>
      email \<noteq> [] \<and> CHR ''@'' \<in> set email \<and> CHR ''.'' \<in> set email
      \<and> length (split CHR ''@'' email) = 2
      \<and> CHR ''.'' \<in> set (split CHR ''@'' email ! 1))
   \<and> length (split CHR ''@'' email) = Suc (count_list email CHR ''@'')
   \<and> is_valid_email ''a@b.com''
   \<and> \<not> is_valid_email ''''
   \<and> \<not> is_valid_email ''no-at-sign.com''
   \<and> \<not> is_valid_email ''a@b@c.com''
   \<and> \<not> is_valid_email ''a@bcom''"
proof (intro conjI)
  show "is_valid_email email \<longleftrightarrow>
      email \<noteq> [] \<and> CHR ''@'' \<in> set email \<and> CHR ''.'' \<in> set email
      \<and> length (split CHR ''@'' email) = 2
      \<and> CHR ''.'' \<in> set (split CHR ''@'' email ! 1)"
    by (auto simp: is_valid_email_def Let_def)
  show "length (split CHR ''@'' email) = Suc (count_list email CHR ''@'')"
    by (rule length_split)
  show "is_valid_email ''a@b.com''"
    by (simp add: is_valid_email_def)
  show "\<not> is_valid_email ''''"
    by (simp add: is_valid_email_def)
  show "\<not> is_valid_email ''no-at-sign.com''"
    by (simp add: is_valid_email_def)
  show "\<not> is_valid_email ''a@b@c.com''"
    by (simp add: is_valid_email_def)
  show "\<not> is_valid_email ''a@bcom''"
    by (simp add: is_valid_email_def)
qed

theorem is_valid_email_rule_witness:
  "is_valid_email ''x@y.org'' \<and> split CHR ''@'' ''x@y.org'' = [''x'', ''y.org'']
   \<and> \<not> is_valid_email ''x@y@z.org''
   \<and> length (split CHR ''@'' ''x@y@z.org'') = 3"
proof -
  have s1: "split CHR ''@'' ''x@y.org'' = [''x'', ''y.org'']" by simp
  have s2: "length (split CHR ''@'' ''x@y@z.org'') = 3" by simp
  have "is_valid_email ''x@y.org''"
    using is_valid_email_rule [of "''x@y.org''"] s1 by simp
  moreover have "\<not> is_valid_email ''x@y@z.org''"
    using is_valid_email_rule [of "''x@y@z.org''"] s2 by simp
  ultimately show ?thesis using s1 s2 by simp
qed

text \<open>
  C9: the part before \<open>@\<close> is never checked to be non-empty: on every string
  \<open>"@" + d\<close>, where \<open>d\<close> contains a dot (so is not empty) and no \<open>@\<close>,
  \<open>is_valid_email\<close> returns true; \<open>"@b.com"\<close> is one.
\<close>

theorem is_valid_email_empty_local_part:
  "CHR ''.'' \<in> set d \<Longrightarrow> CHR ''@'' \<notin> set d \<Longrightarrow> is_valid_email (CHR ''@'' # d)"
  by (simp add: is_valid_email_def split_no_sep)

theorem is_valid_email_empty_local_part_witness:
  "is_valid_email ''@b.com''"
proof -
  have "CHR ''.'' \<in> set ''b.com''" and "CHR ''@'' \<notin> set ''b.com''" by simp_all
  then show ?thesis by (rule is_valid_email_empty_local_part)
qed

section \<open>Error messages\<close>

text \<open>
  C6: \<open>divide\<close> on a zero divisor, \<open>find_max\<close> on the empty sequence and \<open>factorial\<close>
  on a negative number raise the ValueError, and whenever one of the three raises a
  ValueError, the message of the error is exactly "Cannot divide by zero", "List
  cannot be empty" and "Factorial not defined for negative numbers" respectively.
\<close>

theorem error_messages_verbatim:
  "(eq_zero b \<longrightarrow> divide a b = Inl (ValueError ''Cannot divide by zero''))
   \<and> ((\<exists>msg. divide a b = Inl (ValueError msg)) \<longrightarrow>
        divide a b = Inl (ValueError ''Cannot divide by zero''))
   \<and> find_max [] = Inl (ValueError ''List cannot be empty'')
   \<and> ((\<exists>e. find_max numbers = Inl e) \<longrightarrow>
        find_max numbers = Inl (ValueError ''List cannot be empty''))
   \<and> (n < 0 \<longrightarrow> factorial n = Inl (ValueError ''Factorial not defined for negative numbers''))
   \<and> ((\<exists>e. factorial m = Inl e) \<longrightarrow>
        factorial m = Inl (ValueError ''Factorial not defined for negative numbers''))"
proof (intro conjI impI)
  show "divide a b = Inl (ValueError ''Cannot divide by zero'')" if "eq_zero b"
    using that by (simp add: divide_def)
  show "divide a b = Inl (ValueError ''Cannot divide by zero'')"
    if "\<exists>msg. divide a b = Inl (ValueError msg)"
    using that by (auto simp: divide_ValueError_iff)
  show "find_max [] = Inl (ValueError ''List cannot be empty'')"
    by simp
  show "find_max numbers = Inl (ValueError ''List cannot be empty'')"
    if "\<exists>e. find_max numbers = Inl e"
    using that by (cases numbers) simp_all
  show "factorial n = Inl (ValueError ''Factorial not defined for negative numbers'')"
    if "n < 0"
    using that by (rule factorial_below_zero)
  show "factorial m = Inl (ValueError ''Factorial not defined for negative numbers'')"
    if "\<exists>e. factorial m = Inl e"
    using that factorial_only_message by blast
qed

theorem error_messages_verbatim_witness:
  "divide (PyInt 1) (PyInt 0) = Inl (ValueError ''Cannot divide by zero'')
   \<and> find_max [] = Inl (ValueError ''List cannot be empty'')
   \<and> factorial (- 2) = Inl (ValueError ''Factorial not defined for negative numbers'')
   \<and> factorial (1 / 2) = Inl (ValueError ''Factorial not defined for negative numbers'')"
proof -
  note t = error_messages_verbatim [of "PyInt 0" "PyInt 1" "[]" "- 2" "1 / 2"]
  have zero: "eq_zero (PyInt 0)" by simp
  have raised: "\<exists>e. factorial (1 / 2) = Inl e"
    using factorial_off_integers [of "1 / 2"] by simp
  have neg: "(- 2 :: real) < 0" by simp
  have "divide (PyInt 1) (PyInt 0) = Inl (ValueError ''Cannot divide by zero'')"
    using t zero by (elim conjE) (erule (1) mp)
  moreover have "find_max [] = Inl (ValueError ''List cannot be empty'')"
    using t by (elim conjE)
  moreover have "factorial (- 2) = Inl (ValueError ''Factorial not defined for negative numbers'')"
    using t neg by (elim conjE) (erule (1) mp)
  moreover have "factorial (1 / 2) = Inl (ValueError ''Factorial not defined for negative numbers'')"
    using t raised by (elim conjE) (erule (1) mp)
  ultimately show ?thesis by (intro conjI)
qed

section \<open>The accumulator of the calculator\<close>

text \<open>
  C5, as the code has it: a new Calculator has \<open>result = 0\<close>. After every finite
  sequence of add, subtract and reset calls on it whose values are ints, \<open>result\<close> is
  the sum of the values added minus the sum of the values subtracted since the most
  recent reset, or since construction when there was no reset, and the value
  returned by the call at position \<open>i\<close> is that net sum for the first \<open>i + 1\<close> calls.
  Every call of add, subtract and reset that returns, whatever its value, returns
  the updated \<open>result\<close>. The calls add(5), subtract(2), add(10) on a new instance
  return 5, 3 and 13, and reset() on any instance returns 0 and leaves \<open>result = 0\<close>.
\<close>

theorem calculator_result_is_net_sum:
  "result Calculator_init = PyInt 0
   \<and> run (map (map_call PyInt) ics) Calculator_init
       = Inr (map (\<lambda>i. PyInt (net (take (Suc i) ics))) [0..<length ics],
              \<lparr>result = PyInt (net ics)\<rparr>)
   \<and> (Calculator_add v self = Inr (r, self') \<longrightarrow>
         r = result self' \<and> py_add (result self) v = Inr r)
   \<and> (Calculator_subtract v self = Inr (r, self') \<longrightarrow>
         r = result self' \<and> py_sub (result self) v = Inr r)
   \<and> Calculator_reset self = (PyInt 0, \<lparr>result = PyInt 0\<rparr>)
   \<and> run [Add (PyInt 5), Subtract (PyInt 2), Add (PyInt 10)] Calculator_init
       = Inr ([PyInt 5, PyInt 3, PyInt 13], \<lparr>result = PyInt 13\<rparr>)"
proof (intro conjI impI)
  show "result Calculator_init = PyInt 0"
    by (simp add: Calculator_init_def)
  have "map PyInt (exact_totals ics 0) = map (\<lambda>i. PyInt (net (take (Suc i) ics))) [0..<length ics]"
    by (simp add: exact_totals_net)
  then show "run (map (map_call PyInt) ics) Calculator_init
       = Inr (map (\<lambda>i. PyInt (net (take (Suc i) ics))) [0..<length ics],
              \<lparr>result = PyInt (net ics)\<rparr>)"
    unfolding Calculator_init_def by (simp only: run_ints foldl_exact_step)
  show "r = result self'" if "Calculator_add v self = Inr (r, self')"
    using that by (auto simp: Calculator_add_def split: sum.splits)
  show "py_add (result self) v = Inr r" if "Calculator_add v self = Inr (r, self')"
    using that by (auto simp: Calculator_add_def split: sum.splits)
  show "r = result self'" if "Calculator_subtract v self = Inr (r, self')"
    using that by (auto simp: Calculator_subtract_def split: sum.splits)
  show "py_sub (result self) v = Inr r" if "Calculator_subtract v self = Inr (r, self')"
    using that by (auto simp: Calculator_subtract_def split: sum.splits)
  show "Calculator_reset self = (PyInt 0, \<lparr>result = PyInt 0\<rparr>)"
    by (simp add: Calculator_reset_def)
  show "run [Add (PyInt 5), Subtract (PyInt 2), Add (PyInt 10)] Calculator_init
       = Inr ([PyInt 5, PyInt 3, PyInt 13], \<lparr>result = PyInt 13\<rparr>)"
    by (simp add: Calculator_init_def Calculator_add_def Calculator_subtract_def)
qed

theorem calculator_result_is_net_sum_witness:
  "run [Add (PyInt 5), Reset, Subtract (PyInt 2), Add (PyInt 10)] Calculator_init
     = Inr ([PyInt 5, PyInt 0, PyInt (- 2), PyInt 8], \<lparr>result = PyInt 8\<rparr>)
   \<and> Calculator_add (PyInt 3) \<lparr>result = PyInt 4\<rparr> = Inr (PyInt 7, \<lparr>result = PyInt 7\<rparr>)
   \<and> py_add (PyInt 4) (PyInt 3) = Inr (PyInt 7)
   \<and> Calculator_subtract (PyInt 3) \<lparr>result = PyInt 4\<rparr> = Inr (PyInt 1, \<lparr>result = PyInt 1\<rparr>)
   \<and> py_sub (PyInt 4) (PyInt 3) = Inr (PyInt 1)"
proof -
  let ?ics = "[Add 5, Reset, Subtract 2, Add (10::int)]"
  note seq = calculator_result_is_net_sum [of ?ics, THEN conjunct2, THEN conjunct1]
  note adds = calculator_result_is_net_sum
    [of _ "PyInt 3" "\<lparr>result = PyInt 4\<rparr>" "PyInt 7" "\<lparr>result = PyInt 7\<rparr>",
     THEN conjunct2, THEN conjunct2, THEN conjunct1]
  note subs = calculator_result_is_net_sum
    [of _ "PyInt 3" "\<lparr>result = PyInt 4\<rparr>" "PyInt 1" "\<lparr>result = PyInt 1\<rparr>",
     THEN conjunct2, THEN conjunct2, THEN conjunct2, THEN conjunct1]
  have n: "map (\<lambda>i. PyInt (net (take (Suc i) ?ics))) [0..<length ?ics]
      = [PyInt 5, PyInt 0, PyInt (- 2), PyInt 8]"
    by (simp add: net_def since_reset_def added_def subtracted_def upt_rec)
  have m: "net ?ics = 8"
    by (simp add: net_def since_reset_def added_def subtracted_def)
  have a: "run [Add (PyInt 5), Reset, Subtract (PyInt 2), Add (PyInt 10)] Calculator_init
     = Inr ([PyInt 5, PyInt 0, PyInt (- 2), PyInt 8], \<lparr>result = PyInt 8\<rparr>)"
    using seq unfolding n m by simp
  have b: "Calculator_add (PyInt 3) \<lparr>result = PyInt 4\<rparr> = Inr (PyInt 7, \<lparr>result = PyInt 7\<rparr>)"
    by (simp add: Calculator_add_def)
  have c: "Calculator_subtract (PyInt 3) \<lparr>result = PyInt 4\<rparr>
      = Inr (PyInt 1, \<lparr>result = PyInt 1\<rparr>)"
    by (simp add: Calculator_subtract_def)
  have "py_add (PyInt 4) (PyInt 3) = Inr (PyInt 7)"
    using adds b by simp
  moreover have "py_sub (PyInt 4) (PyInt 3) = Inr (PyInt 1)"
    using subs c by simp
  ultimately show ?thesis using a b c by (intro conjI)
qed

text \<open>
  The claim C5 as it was stated, for values of any kind, fails on floats, where each
  step rounds: add(1e16), add(1.0), subtract(1e16) on a new instance returns 1e16,
  1e16 and 0.0 and leaves \<open>result = 0.0\<close>, while the values added minus the values
  subtracted make 1.
\<close>

theorem calculator_float_counterexample:
  "run [Add (PyFloat (Finite (10 ^ 16))), Add (PyFloat (Finite 1)),
        Subtract (PyFloat (Finite (10 ^ 16)))] Calculator_init
     = Inr ([PyFloat (Finite (10 ^ 16)), PyFloat (Finite (10 ^ 16)), PyFloat (Finite 0)],
            \<lparr>result = PyFloat (Finite 0)\<rparr>)
   \<and> net [Add (10 ^ 16), Add 1, Subtract (10 ^ 16 :: real)] = 1"
proof
  have a: "Calculator_add (PyFloat (Finite (10 ^ 16))) Calculator_init
      = Inr (PyFloat (Finite (10 ^ 16)), \<lparr>result = PyFloat (Finite (10 ^ 16))\<rparr>)"
    using round_double_1e16 by (simp add: Calculator_add_def Calculator_init_def round_double_0)
  have b: "Calculator_add (PyFloat (Finite 1)) \<lparr>result = PyFloat (Finite (10 ^ 16))\<rparr>
      = Inr (PyFloat (Finite (10 ^ 16)), \<lparr>result = PyFloat (Finite (10 ^ 16))\<rparr>)"
    using round_double_1e16_plus_1 by (simp add: Calculator_add_def)
  have c: "Calculator_subtract (PyFloat (Finite (10 ^ 16))) \<lparr>result = PyFloat (Finite (10 ^ 16))\<rparr>
      = Inr (PyFloat (Finite 0), \<lparr>result = PyFloat (Finite 0)\<rparr>)"
    by (simp add: Calculator_subtract_def double_sub_def round_double_0)
  show "run [Add (PyFloat (Finite (10 ^ 16))), Add (PyFloat (Finite 1)),
        Subtract (PyFloat (Finite (10 ^ 16)))] Calculator_init
     = Inr ([PyFloat (Finite (10 ^ 16)), PyFloat (Finite (10 ^ 16)), PyFloat (Finite 0)],
            \<lparr>result = PyFloat (Finite 0)\<rparr>)"
    using a b c by simp
  show "net [Add (10 ^ 16), Add 1, Subtract (10 ^ 16 :: real)] = 1"
    by (simp add: net_def since_reset_def added_def subtracted_def)
qed

end
